theory Spec2Isabelle
  imports Complex_Main "HOL-Library.Word" "HOL-Library.Sublist"
begin

section \<open>JavaScript strings\<close>

text \<open>
  A JavaScript string is a sequence of 16-bit UTF-16 code units. The literals of
  \<^verbatim>\<open>TodoApp.tsx\<close> are all ASCII and are written through \<open>js\<close>.
\<close>

type_synonym jsstring = "16 word list"

definition js :: "string \<Rightarrow> jsstring" where
  "js s = map (\<lambda>c. of_nat (of_char c)) s"

text \<open>
  \<^verbatim>\<open>String.prototype.trim\<close> removes leading and trailing WhiteSpace and
  LineTerminator code units: TAB, LF, VT, FF, CR, SP, NBSP, U+1680, U+2000..U+200A,
  U+2028, U+2029, U+202F, U+205F, U+3000 and U+FEFF.
\<close>

definition isWhiteSpace :: "16 word \<Rightarrow> bool" where
  "isWhiteSpace c =
     ((0x09 \<le> c \<and> c \<le> 0x0D) \<or> c = 0x20 \<or> c = 0xA0 \<or> c = 0x1680
      \<or> (0x2000 \<le> c \<and> c \<le> 0x200A) \<or> c = 0x2028 \<or> c = 0x2029 \<or> c = 0x202F
      \<or> c = 0x205F \<or> c = 0x3000 \<or> c = 0xFEFF)"

definition trim :: "jsstring \<Rightarrow> jsstring" where
  "trim s = rev (dropWhile isWhiteSpace (rev (dropWhile isWhiteSpace s)))"

section \<open>Data model\<close>

text \<open>
  \<^verbatim>\<open>interface Todo { id: number; text: string; completed: boolean; }\<close>
  The only ids the component creates are readings of \<^verbatim>\<open>Date.now()\<close>, whole numbers
  of milliseconds, so \<open>id\<close> is an integer. (\<open>id\<close> and \<open>text\<close> carry a suffix:
  the plain names are taken in Isabelle.)
\<close>

record Todo =
  id_todo :: int
  text_todo :: jsstring
  completed :: bool

section \<open>JSON values\<close>

text \<open>
  The values \<^verbatim>\<open>JSON.parse\<close> can return. The members of an object are kept in
  the order of the text; reading a property takes its last occurrence, as the later of
  two members with one key overwrites the earlier. A number is kept as the exact value of
  its literal (the rounding to a double is not modelled; whole numbers below \<open>2^53\<close>
  are exact either way).
\<close>

datatype json =
    JNull
  | JBool bool
  | JNumber rat
  | JString jsstring
  | JArray "json list"
  | JObject "(jsstring \<times> json) list"

definition lookup_prop :: "jsstring \<Rightarrow> (jsstring \<times> json) list \<Rightarrow> json option" where
  "lookup_prop k ms = map_of (rev ms) k"

text \<open>The value of a \<^verbatim>\<open>Todo\<close> object and of a \<^verbatim>\<open>Todo[]\<close> array.\<close>

definition json_of_todo :: "Todo \<Rightarrow> json" where
  "json_of_todo t =
     JObject [(js ''id'', JNumber (of_int (id_todo t))),
              (js ''text'', JString (text_todo t)),
              (js ''completed'', JBool (completed t))]"

definition json_of_todos :: "Todo list \<Rightarrow> json" where
  "json_of_todos ts = JArray (map json_of_todo ts)"

text \<open>
  A value read at the type \<^verbatim>\<open>Todo[]\<close>: an array of objects whose \<^verbatim>\<open>id\<close> is
  a whole number, whose \<^verbatim>\<open>text\<close> is a string and whose \<^verbatim>\<open>completed\<close> is a
  boolean. The component itself never checks this.
\<close>

definition todo_of_json :: "json \<Rightarrow> Todo option" where
  "todo_of_json v =
     (case v of
        JObject ms \<Rightarrow>
          (case (lookup_prop (js ''id'') ms, lookup_prop (js ''text'') ms,
                 lookup_prop (js ''completed'') ms) of
             (Some (JNumber x), Some (JString s), Some (JBool b)) \<Rightarrow>
               if of_int \<lfloor>x\<rfloor> = x
               then Some \<lparr>id_todo = \<lfloor>x\<rfloor>, text_todo = s, completed = b\<rparr>
               else None
           | _ \<Rightarrow> None)
      | _ \<Rightarrow> None)"

definition todos_of_json :: "json \<Rightarrow> Todo list option" where
  "todos_of_json v = (case v of JArray vs \<Rightarrow> those (map todo_of_json vs) | _ \<Rightarrow> None)"

section \<open>JSON.stringify on a Todo array\<close>

text \<open>
  \<^verbatim>\<open>JSON.stringify(todos)\<close> for \<^verbatim>\<open>todos: Todo[]\<close>, after ECMA-262
  (SerializeJSONArray, SerializeJSONObject, QuoteJSONString, Number::toString), with no
  indentation. A whole number of magnitude below \<open>10^21\<close> is printed as its decimal
  digits; every \<^verbatim>\<open>Date.now()\<close> value is in that range.
\<close>

definition digit_char :: "nat \<Rightarrow> 16 word" where
  "digit_char d = of_nat (48 + d)"

fun digits_of_nat :: "nat \<Rightarrow> jsstring" where
  "digits_of_nat n =
     (if n < 10 then [digit_char n] else digits_of_nat (n div 10) @ [digit_char (n mod 10)])"

declare digits_of_nat.simps [simp del]

definition number_toString :: "int \<Rightarrow> jsstring" where
  "number_toString i =
     (if i < 0 then 0x2D # digits_of_nat (nat (- i)) else digits_of_nat (nat i))"

definition hex_char :: "nat \<Rightarrow> 16 word" where
  "hex_char d = of_nat (if d < 10 then 48 + d else 87 + d)"

text \<open>UnicodeEscape: \<^verbatim>\<open>\u\<close> and four lowercase hexadecimal digits.\<close>

definition unicodeEscape :: "16 word \<Rightarrow> jsstring" where
  "unicodeEscape c =
     [0x5C, 0x75, hex_char (unat c div 4096), hex_char (unat c div 256 mod 16),
      hex_char (unat c div 16 mod 16), hex_char (unat c mod 16)]"

definition isLeadingSurrogate :: "16 word \<Rightarrow> bool" where
  "isLeadingSurrogate c = (0xD800 \<le> c \<and> c \<le> 0xDBFF)"

definition isTrailingSurrogate :: "16 word \<Rightarrow> bool" where
  "isTrailingSurrogate c = (0xDC00 \<le> c \<and> c \<le> 0xDFFF)"

text \<open>
  One code point that is not a surrogate pair: the short escapes of the table
  (\<^verbatim>\<open>\b \t \n \f \r \" \\\<close>), a \<^verbatim>\<open>\u\<close> escape for the other control
  characters and for a lone surrogate, the code unit itself otherwise.
\<close>

definition quoteCodeUnit :: "16 word \<Rightarrow> jsstring" where
  "quoteCodeUnit c =
     (if c = 0x08 then [0x5C, 0x62]
      else if c = 0x09 then [0x5C, 0x74]
      else if c = 0x0A then [0x5C, 0x6E]
      else if c = 0x0C then [0x5C, 0x66]
      else if c = 0x0D then [0x5C, 0x72]
      else if c = 0x22 then [0x5C, 0x22]
      else if c = 0x5C then [0x5C, 0x5C]
      else if c < 0x20 \<or> isLeadingSurrogate c \<or> isTrailingSurrogate c then unicodeEscape c
      else [c])"

fun quoteChars :: "jsstring \<Rightarrow> jsstring" where
  "quoteChars [] = []"
| "quoteChars [c] = quoteCodeUnit c"
| "quoteChars (c # d # cs) =
     (if isLeadingSurrogate c \<and> isTrailingSurrogate d then c # d # quoteChars cs
      else quoteCodeUnit c @ quoteChars (d # cs))"

definition quoteJSONString :: "jsstring \<Rightarrow> jsstring" where
  "quoteJSONString s = 0x22 # quoteChars s @ [0x22]"

definition stringify_bool :: "bool \<Rightarrow> jsstring" where
  "stringify_bool b = (if b then js ''true'' else js ''false'')"

definition stringify_todo :: "Todo \<Rightarrow> jsstring" where
  "stringify_todo t =
     [0x7B] @ quoteJSONString (js ''id'') @ [0x3A] @ number_toString (id_todo t) @ [0x2C]
     @ quoteJSONString (js ''text'') @ [0x3A] @ quoteJSONString (text_todo t) @ [0x2C]
     @ quoteJSONString (js ''completed'') @ [0x3A] @ stringify_bool (completed t) @ [0x7D]"

fun join_comma :: "jsstring list \<Rightarrow> jsstring" where
  "join_comma [] = []"
| "join_comma [x] = x"
| "join_comma (x # y # xs) = x @ 0x2C # join_comma (y # xs)"

definition JSON_stringify :: "Todo list \<Rightarrow> jsstring" where
  "JSON_stringify ts = 0x5B # join_comma (map stringify_todo ts) @ [0x5D]"

section \<open>JSON.parse\<close>

text \<open>
  \<^verbatim>\<open>JSON.parse(text)\<close> without a reviver, after the JSON grammar of ECMA-404: a
  recursive-descent parser over the code units. Every function returns the value read
  and the rest of the text, or \<open>None\<close> where \<^verbatim>\<open>JSON.parse\<close> throws a
  \<^verbatim>\<open>SyntaxError\<close>. The tests \<open>length r < length cs\<close> in \<open>parse_elements\<close> and
  \<open>parse_members\<close> are there for the termination proof alone; they never fail
  (\<open>parse_elements_unguarded\<close> and \<open>parse_members_unguarded\<close> below).
\<close>

definition isJSONWhiteSpace :: "16 word \<Rightarrow> bool" where
  "isJSONWhiteSpace c = (c = 0x09 \<or> c = 0x0A \<or> c = 0x0D \<or> c = 0x20)"

definition skip_ws :: "jsstring \<Rightarrow> jsstring" where
  "skip_ws cs = dropWhile isJSONWhiteSpace cs"

definition hex_val :: "16 word \<Rightarrow> nat option" where
  "hex_val c =
     (let n = unat c in
      if 48 \<le> n \<and> n \<le> 57 then Some (n - 48)
      else if 97 \<le> n \<and> n \<le> 102 then Some (n - 87)
      else if 65 \<le> n \<and> n \<le> 70 then Some (n - 55)
      else None)"

definition hex4 :: "16 word \<Rightarrow> 16 word \<Rightarrow> 16 word \<Rightarrow> 16 word \<Rightarrow> 16 word option" where
  "hex4 a b c d =
     (case (hex_val a, hex_val b, hex_val c, hex_val d) of
        (Some x, Some y, Some z, Some w) \<Rightarrow> Some (of_nat (((x * 16 + y) * 16 + z) * 16 + w))
      | _ \<Rightarrow> None)"

definition unescape :: "16 word \<Rightarrow> 16 word option" where
  "unescape e =
     (if e = 0x22 then Some 0x22
      else if e = 0x5C then Some 0x5C
      else if e = 0x2F then Some 0x2F
      else if e = 0x62 then Some 0x08
      else if e = 0x66 then Some 0x0C
      else if e = 0x6E then Some 0x0A
      else if e = 0x72 then Some 0x0D
      else if e = 0x74 then Some 0x09
      else None)"

definition cons_result :: "'a \<Rightarrow> ('a list \<times> 'b) option \<Rightarrow> ('a list \<times> 'b) option" where
  "cons_result x r = (case r of None \<Rightarrow> None | Some (xs, rest) \<Rightarrow> Some (x # xs, rest))"

fun parse_chars :: "jsstring \<Rightarrow> (jsstring \<times> jsstring) option" where
  "parse_chars [] = None"
| "parse_chars (c # cs) =
     (if c = 0x22 then Some ([], cs)
      else if c = 0x5C then
        (case cs of
           [] \<Rightarrow> None
         | e # cs' \<Rightarrow>
             if e = 0x75 then
               (case cs' of
                  h1 # h2 # h3 # h4 # cs'' \<Rightarrow>
                    (case hex4 h1 h2 h3 h4 of
                       None \<Rightarrow> None
                     | Some u \<Rightarrow> cons_result u (parse_chars cs''))
                | _ \<Rightarrow> None)
             else
               (case unescape e of
                  None \<Rightarrow> None
                | Some u \<Rightarrow> cons_result u (parse_chars cs')))
      else if c < 0x20 then None
      else cons_result c (parse_chars cs))"

definition isDigit :: "16 word \<Rightarrow> bool" where
  "isDigit c = (0x30 \<le> c \<and> c \<le> 0x39)"

definition digits_val :: "jsstring \<Rightarrow> nat" where
  "digits_val ds = foldl (\<lambda>a d. 10 * a + (unat d - 48)) 0 ds"

definition parse_int :: "jsstring \<Rightarrow> (jsstring \<times> jsstring) option" where
  "parse_int cs =
     (case cs of
        [] \<Rightarrow> None
      | c # r \<Rightarrow>
          if c = 0x30 then Some ([c], r)
          else if isDigit c then Some (takeWhile isDigit cs, dropWhile isDigit cs)
          else None)"

definition parse_frac :: "jsstring \<Rightarrow> (jsstring \<times> jsstring) option" where
  "parse_frac cs =
     (case cs of
        [] \<Rightarrow> Some ([], cs)
      | c # r \<Rightarrow>
          if c = 0x2E then
            (if takeWhile isDigit r = [] then None
             else Some (takeWhile isDigit r, dropWhile isDigit r))
          else Some ([], cs))"

definition parse_sign :: "jsstring \<Rightarrow> bool \<times> jsstring" where
  "parse_sign cs =
     (case cs of
        [] \<Rightarrow> (False, cs)
      | c # r \<Rightarrow> if c = 0x2D then (True, r) else if c = 0x2B then (False, r) else (False, cs))"

definition parse_exp :: "jsstring \<Rightarrow> (int \<times> jsstring) option" where
  "parse_exp cs =
     (case cs of
        [] \<Rightarrow> Some (0, cs)
      | c # r \<Rightarrow>
          if c = 0x65 \<or> c = 0x45 then
            (case parse_sign r of
               (neg, r') \<Rightarrow>
                 if takeWhile isDigit r' = [] then None
                 else Some ((if neg then - int (digits_val (takeWhile isDigit r'))
                             else int (digits_val (takeWhile isDigit r'))),
                            dropWhile isDigit r'))
          else Some (0, cs))"

definition number_value :: "bool \<Rightarrow> jsstring \<Rightarrow> jsstring \<Rightarrow> int \<Rightarrow> rat" where
  "number_value neg ip fp e =
     (let m = of_nat (digits_val (ip @ fp));
          x = e - int (length fp);
          v = (if 0 \<le> x then m * 10 ^ nat x else m / 10 ^ nat (- x))
      in if neg then - v else v)"

definition parse_number :: "jsstring \<Rightarrow> (rat \<times> jsstring) option" where
  "parse_number cs =
     (case (case cs of [] \<Rightarrow> (False, cs) | c # r \<Rightarrow> if c = 0x2D then (True, r) else (False, cs)) of
        (neg, cs1) \<Rightarrow>
          (case parse_int cs1 of
             None \<Rightarrow> None
           | Some (ip, cs2) \<Rightarrow>
               (case parse_frac cs2 of
                  None \<Rightarrow> None
                | Some (fp, cs3) \<Rightarrow>
                    (case parse_exp cs3 of
                       None \<Rightarrow> None
                     | Some (e, cs4) \<Rightarrow> Some (number_value neg ip fp e, cs4)))))"

lemma skip_ws_length: "length (skip_ws cs) \<le> length cs"
  by (simp add: skip_ws_def length_dropWhile_le)

lemma skip_ws_Cons_length: "skip_ws cs = d # r \<Longrightarrow> length r < length cs"
  using skip_ws_length [of cs] by simp

lemma cons_result_Some:
  "cons_result x r = Some (ys, rest) \<longleftrightarrow> (\<exists>xs. r = Some (xs, rest) \<and> ys = x # xs)"
  by (auto simp: cons_result_def split: option.splits)

lemma parse_chars_length: "parse_chars cs = Some (s, r) \<Longrightarrow> length r < length cs"
proof (induction cs arbitrary: s r rule: parse_chars.induct)
  case 1
  then show ?case by simp
next
  case (2 c cs)
  then show ?case
    by (fastforce simp: cons_result_Some split: if_splits list.splits option.splits)
qed

function parse_value :: "jsstring \<Rightarrow> (json \<times> jsstring) option"
  and parse_elements :: "jsstring \<Rightarrow> (json list \<times> jsstring) option"
  and parse_members :: "jsstring \<Rightarrow> ((jsstring \<times> json) list \<times> jsstring) option"
where
  "parse_value cs =
     (case cs of
        [] \<Rightarrow> None
      | c # r \<Rightarrow>
          if c = 0x7B then
            (case skip_ws r of
               [] \<Rightarrow> None
             | d # r' \<Rightarrow>
                 if d = 0x7D then Some (JObject [], r')
                 else (case parse_members r of
                         None \<Rightarrow> None
                       | Some (ms, r'') \<Rightarrow> Some (JObject ms, r'')))
          else if c = 0x5B then
            (case skip_ws r of
               [] \<Rightarrow> None
             | d # r' \<Rightarrow>
                 if d = 0x5D then Some (JArray [], r')
                 else (case parse_elements r of
                         None \<Rightarrow> None
                       | Some (vs, r'') \<Rightarrow> Some (JArray vs, r'')))
          else if c = 0x22 then
            (case parse_chars r of
               None \<Rightarrow> None
             | Some (s, r') \<Rightarrow> Some (JString s, r'))
          else if take 4 cs = js ''true'' then Some (JBool True, drop 4 cs)
          else if take 5 cs = js ''false'' then Some (JBool False, drop 5 cs)
          else if take 4 cs = js ''null'' then Some (JNull, drop 4 cs)
          else (case parse_number cs of
                  None \<Rightarrow> None
                | Some (x, r') \<Rightarrow> Some (JNumber x, r')))"
| "parse_elements cs =
     (case parse_value (skip_ws cs) of
        None \<Rightarrow> None
      | Some (v, r) \<Rightarrow>
          if length r < length cs then
            (case skip_ws r of
               [] \<Rightarrow> None
             | d # r' \<Rightarrow>
                 if d = 0x2C then cons_result v (parse_elements r')
                 else if d = 0x5D then Some ([v], r')
                 else None)
          else None)"
| "parse_members cs =
     (case skip_ws cs of
        [] \<Rightarrow> None
      | q # r \<Rightarrow>
          if q = 0x22 then
            (case parse_chars r of
               None \<Rightarrow> None
             | Some (k, r1) \<Rightarrow>
                 (case skip_ws r1 of
                    [] \<Rightarrow> None
                  | col # r2 \<Rightarrow>
                      if col = 0x3A then
                        (case parse_value (skip_ws r2) of
                           None \<Rightarrow> None
                         | Some (v, r3) \<Rightarrow>
                             if length r3 < length cs then
                               (case skip_ws r3 of
                                  [] \<Rightarrow> None
                                | d # r4 \<Rightarrow>
                                    if d = 0x2C then cons_result (k, v) (parse_members r4)
                                    else if d = 0x7D then Some ([(k, v)], r4)
                                    else None)
                             else None)
                      else None))
          else None)"
  by pat_completeness auto
termination
  apply (relation "measure (\<lambda>x. case x of Inl cs \<Rightarrow> 2 * length cs
                                     | Inr (Inl cs) \<Rightarrow> 2 * length cs + 1
                                     | Inr (Inr cs) \<Rightarrow> 2 * length cs + 1)")
        apply simp_all
  subgoal for cs using skip_ws_length [of cs] by simp
  subgoal for cs p v r d r' using skip_ws_Cons_length [of r "0x2C" r'] by simp
  subgoal for cs q r p k r1 col r2
    using skip_ws_Cons_length [of cs "0x22" r] parse_chars_length [of r k r1]
      skip_ws_Cons_length [of r1 "0x3A" r2] skip_ws_length [of r2] by simp
  subgoal for cs q r p k r1 col r2 p' v r3 d r4
    using skip_ws_Cons_length [of r3 "0x2C" r4] by simp
  done

declare parse_value.simps [simp del] parse_elements.simps [simp del] parse_members.simps [simp del]

definition JSON_parse :: "jsstring \<Rightarrow> json option" where
  "JSON_parse s =
     (case parse_value (skip_ws s) of
        None \<Rightarrow> None
      | Some (v, r) \<Rightarrow> if skip_ws r = [] then Some v else None)"

section \<open>The load effect\<close>

datatype error = SyntaxError

text \<open>
  \<^verbatim>\<open>const storedTodos = localStorage.getItem('todos');
  if (storedTodos) { setTodos(JSON.parse(storedTodos)); }\<close>
  \<open>getItem\<close> gives \<^verbatim>\<open>null\<close> for an absent key, and \<^verbatim>\<open>null\<close> and the empty
  string are falsy. The result is \<open>Inr None\<close> when \<^verbatim>\<open>setTodos\<close> is not called,
  \<open>Inr (Some v)\<close> when it is called with the parsed value \<open>v\<close>, and \<open>Inl e\<close>
  when the effect ends with the exception \<open>e\<close>: nothing in the component catches it.
\<close>

definition load :: "jsstring option \<Rightarrow> error + json option" where
  "load storedTodos =
     (case storedTodos of
        None \<Rightarrow> Inr None
      | Some s \<Rightarrow>
          if s = [] then Inr None
          else (case JSON_parse s of
                  None \<Rightarrow> Inl SyntaxError
                | Some v \<Rightarrow> Inr (Some v)))"

section \<open>The component and its handlers\<close>

text \<open>
  The state of \<^verbatim>\<open>TodoApp\<close>: its three \<^verbatim>\<open>useState\<close> cells, the value stored
  under the key \<^verbatim>\<open>'todos'\<close> of \<^verbatim>\<open>localStorage\<close> (\<open>None\<close> when the key
  is absent) and the number of \<^verbatim>\<open>localStorage.setItem\<close> calls made so far.
\<close>

record app_state =
  todos :: "Todo list"
  input :: jsstring
  filter_st :: jsstring
  storage :: "jsstring option"
  writes :: nat

text \<open>
  \<^verbatim>\<open>setTodos(ts)\<close> with a new array, together with what follows from it: the
  component renders again and the effect that depends on \<^verbatim>\<open>[todos]\<close> runs once,
  \<^verbatim>\<open>localStorage.setItem('todos', JSON.stringify(todos))\<close>. Every handler
  builds a new array (a spread, \<^verbatim>\<open>map\<close>, \<^verbatim>\<open>filter\<close> or \<^verbatim>\<open>[]\<close>), so
  the effect runs after each call of \<^verbatim>\<open>setTodos\<close>. A handler runs to its end before
  the next one starts.
\<close>

definition setTodos :: "Todo list \<Rightarrow> app_state \<Rightarrow> app_state" where
  "setTodos ts st =
     st\<lparr>todos := ts, storage := Some (JSON_stringify ts), writes := Suc (writes st)\<rparr>"

definition setInput :: "jsstring \<Rightarrow> app_state \<Rightarrow> app_state" where
  "setInput s st = st\<lparr>input := s\<rparr>"

definition setFilter :: "jsstring \<Rightarrow> app_state \<Rightarrow> app_state" where
  "setFilter f st = st\<lparr>filter_st := f\<rparr>"

text \<open>\<open>now\<close> is the value \<^verbatim>\<open>Date.now()\<close> returns during the call.\<close>

definition addTodo :: "int \<Rightarrow> app_state \<Rightarrow> app_state" where
  "addTodo now st =
     (if trim (input st) = [] then st
      else let newTodo = \<lparr>id_todo = now, text_todo = input st, completed = False\<rparr>
           in setInput [] (setTodos (todos st @ [newTodo]) st))"

definition toggleComplete :: "int \<Rightarrow> app_state \<Rightarrow> app_state" where
  "toggleComplete i st =
     setTodos (map (\<lambda>todo. if id_todo todo = i then todo\<lparr>completed := \<not> completed todo\<rparr>
                            else todo) (todos st)) st"

definition deleteTodo :: "int \<Rightarrow> app_state \<Rightarrow> app_state" where
  "deleteTodo i st = setTodos (filter (\<lambda>todo. id_todo todo \<noteq> i) (todos st)) st"

definition clearCompleted :: "app_state \<Rightarrow> app_state" where
  "clearCompleted st = setTodos (filter (\<lambda>todo. \<not> completed todo) (todos st)) st"

definition clearAll :: "app_state \<Rightarrow> app_state" where
  "clearAll st = setTodos [] st"

definition filteredTodos :: "app_state \<Rightarrow> Todo list" where
  "filteredTodos st =
     filter (\<lambda>todo. if filter_st st = js ''pending'' then \<not> completed todo
                    else if filter_st st = js ''completed'' then completed todo
                    else True) (todos st)"

text \<open>The state of the first render, over a given content of the storage key.\<close>

definition initial :: "jsstring option \<Rightarrow> app_state" where
  "initial stored =
     \<lparr>todos = [], input = [], filter_st = js ''all'', storage = stored, writes = 0\<rparr>"

text \<open>A state with one pending and one completed task, for the examples below.\<close>

definition ex_state :: app_state where
  "ex_state = \<lparr>todos = [\<lparr>id_todo = 1, text_todo = js ''buy milk'', completed = False\<rparr>,
                         \<lparr>id_todo = 2, text_todo = js ''walk dog'', completed = True\<rparr>],
               input = js ''  '', filter_st = js ''all'', storage = None, writes = 0\<rparr>"

section \<open>Auxiliary facts\<close>

lemma js_literals_distinct:
  "js ''all'' \<noteq> js ''pending''" "js ''all'' \<noteq> js ''completed''"
  "js ''pending'' \<noteq> js ''completed''"
  by (simp_all add: js_def)

lemma dropWhile_all_iff: "(\<forall>x\<in>set (dropWhile P s). P x) \<longleftrightarrow> dropWhile P s = []"
  by (metis hd_dropWhile list.set_sel(1) list.set(1) empty_iff)

lemma trim_empty_iff: "trim s = [] \<longleftrightarrow> (\<forall>c\<in>set s. isWhiteSpace c)"
  by (simp add: trim_def dropWhile_eq_Nil_conv dropWhile_all_iff)

lemma distinct_ids_single:
  "distinct (map id_todo ts) \<Longrightarrow> length (filter (\<lambda>t. id_todo t = i) ts) \<le> 1"
proof (induction ts)
  case Nil
  then show ?case by simp
next
  case (Cons t ts)
  show ?case
  proof (cases "id_todo t = i")
    case True
    with Cons.prems have "i \<notin> id_todo ` set ts" by auto
    then have "filter (\<lambda>t. id_todo t = i) ts = []"
      by (auto simp: filter_empty_conv)
    with True show ?thesis by simp
  next
    case False
    with Cons show ?thesis by simp
  qed
qed

lemma count_list_filter:
  "count_list (filter P xs) x = (if P x then count_list xs x else 0)"
  by (induction xs) auto

lemma todos_setTodos [simp]: "todos (setTodos ts st) = ts"
  by (simp add: setTodos_def)

lemma parse_not_valid: "JSON_parse (js ''not valid json'') = None"
  by (simp add: JSON_parse_def js_def skip_ws_def isJSONWhiteSpace_def parse_value.simps
      parse_number_def parse_int_def isDigit_def)

lemma parse_empty_array: "JSON_parse (js ''[]'') = Some (JArray [])"
  by (simp add: JSON_parse_def js_def skip_ws_def isJSONWhiteSpace_def parse_value.simps)

section \<open>JSON.parse reads back what JSON.stringify writes\<close>

subsection \<open>Strings\<close>

lemma unat_of_nat16: "n < 65536 \<Longrightarrow> unat (of_nat n :: 16 word) = n"
  by (simp add: unat_of_nat)

lemma hex_val_hex_char: "d < 16 \<Longrightarrow> hex_val (hex_char d) = Some d"
  by (simp add: hex_val_def hex_char_def unat_of_nat16 Let_def)

lemma unat16_bound: "unat (c :: 16 word) < 65536"
  using unsigned_less [of c, where 'a = nat] by simp

lemma hex_digits_sum:
  fixes n :: nat
  shows "((n div 4096 * 16 + n div 256 mod 16) * 16 + n div 16 mod 16) * 16 + n mod 16 = n"
proof -
  have a: "n div 16 div 16 = n div 256" "n div 256 div 16 = n div 4096"
    by (simp_all add: div_mult2_eq [symmetric])
  have "n = n div 16 * 16 + n mod 16" by simp
  also have "n div 16 = n div 256 * 16 + n div 16 mod 16"
    using a(1) div_mult_mod_eq [of "n div 16" 16] by simp
  also have "n div 256 = n div 4096 * 16 + n div 256 mod 16"
    using a(2) div_mult_mod_eq [of "n div 256" 16] by simp
  finally show ?thesis by simp
qed


lemma hex4_unicodeEscape:
  "hex4 (hex_char (unat c div 4096)) (hex_char (unat c div 256 mod 16))
        (hex_char (unat c div 16 mod 16)) (hex_char (unat c mod 16)) = Some c"
proof -
  have b: "unat c div 4096 < 16"
    using unat16_bound [of c] by simp
  have v: "hex_val (hex_char (unat c div 4096)) = Some (unat c div 4096)"
    "hex_val (hex_char (unat c div 256 mod 16)) = Some (unat c div 256 mod 16)"
    "hex_val (hex_char (unat c div 16 mod 16)) = Some (unat c div 16 mod 16)"
    "hex_val (hex_char (unat c mod 16)) = Some (unat c mod 16)"
    using b by (simp_all add: hex_val_hex_char)
  show ?thesis
    unfolding hex4_def v
    by (simp only: prod.case option.case hex_digits_sum) simp
qed

lemma parse_chars_unicodeEscape:
  "parse_chars (unicodeEscape c @ rest) = cons_result c (parse_chars rest)"
  by (simp add: unicodeEscape_def hex4_unicodeEscape)


lemma surrogate_plain:
  assumes "isLeadingSurrogate c \<or> isTrailingSurrogate c"
  shows "c \<noteq> 0x22" "c \<noteq> 0x5C" "\<not> c < 0x20"
  using assms by (auto simp: isLeadingSurrogate_def isTrailingSurrogate_def word_le_nat_alt word_less_nat_alt)

lemma parse_chars_plain:
  "c \<noteq> 0x22 \<Longrightarrow> c \<noteq> 0x5C \<Longrightarrow> \<not> c < 0x20 \<Longrightarrow>
   parse_chars (c # rest) = cons_result c (parse_chars rest)"
  by simp

lemma parse_chars_escape:
  "e \<noteq> 0x75 \<Longrightarrow> unescape e = Some u \<Longrightarrow>
   parse_chars (0x5C # e # rest) = cons_result u (parse_chars rest)"
  by simp


lemma parse_chars_quoteCodeUnit:
  "parse_chars (quoteCodeUnit c @ rest) = cons_result c (parse_chars rest)"
proof -
  consider "c = 0x08" | "c = 0x09" | "c = 0x0A" | "c = 0x0C" | "c = 0x0D" | "c = 0x22"
    | "c = 0x5C"
    | "c \<notin> {0x08, 0x09, 0x0A, 0x0C, 0x0D, 0x22, 0x5C}"
      "c < 0x20 \<or> isLeadingSurrogate c \<or> isTrailingSurrogate c"
    | "c \<notin> {0x08, 0x09, 0x0A, 0x0C, 0x0D, 0x22, 0x5C}"
      "\<not> (c < 0x20 \<or> isLeadingSurrogate c \<or> isTrailingSurrogate c)"
    by blast
  then show ?thesis
  proof cases
    case 8
    then have "quoteCodeUnit c = unicodeEscape c"
      by (simp add: quoteCodeUnit_def)
    then show ?thesis
      by (simp only: parse_chars_unicodeEscape)
  next
    case 9
    then have "quoteCodeUnit c = [c]"
      by (simp add: quoteCodeUnit_def)
    with 9 show ?thesis
      by (simp add: parse_chars_plain del: parse_chars.simps)
  qed (simp_all add: quoteCodeUnit_def unescape_def)
qed

lemma parse_chars_pair:
  "isLeadingSurrogate c \<Longrightarrow> isTrailingSurrogate d \<Longrightarrow>
   parse_chars (c # d # rest) = cons_result c (cons_result d (parse_chars rest))"
  by (simp add: surrogate_plain parse_chars_plain del: parse_chars.simps)

lemma parse_chars_quoteChars:
  "parse_chars (quoteChars s @ 0x22 # rest) = Some (s, rest)"
proof (induction s rule: quoteChars.induct)
  case 1
  show ?case by simp
next
  case (2 c)
  have "parse_chars (0x22 # rest) = Some ([], rest)" by simp
  then show ?case
    by (simp add: parse_chars_quoteCodeUnit cons_result_def del: parse_chars.simps)
next
  case (3 c d cs)
  show ?case
  proof (cases "isLeadingSurrogate c \<and> isTrailingSurrogate d")
    case True
    with 3 show ?thesis
      by (simp add: parse_chars_pair cons_result_def del: parse_chars.simps)
  next
    case False
    then have "quoteChars (c # d # cs) = quoteCodeUnit c @ quoteChars (d # cs)"
      by auto
    with False 3 show ?thesis
      by (simp add: parse_chars_quoteCodeUnit cons_result_def
          del: parse_chars.simps quoteChars.simps)
  qed
qed

lemma parse_value_string:
  "parse_value (quoteJSONString s @ rest) = Some (JString s, rest)"
  by (simp add: quoteJSONString_def parse_value.simps parse_chars_quoteChars
      del: parse_chars.simps)

subsection \<open>Numbers\<close>

lemma unat_digit_char: "d < 10 \<Longrightarrow> unat (digit_char d) = 48 + d"
  unfolding digit_char_def by (rule unat_of_nat16) simp

lemma isDigit_digit_char: "d < 10 \<Longrightarrow> isDigit (digit_char d)"
  by (simp add: isDigit_def word_le_nat_alt unat_digit_char)

lemma digit_char_zero_iff: "d < 10 \<Longrightarrow> digit_char d = 0x30 \<longleftrightarrow> d = 0"
  using unat_digit_char [of d] by (auto simp: digit_char_def)

lemma digits_of_nat_nonempty: "digits_of_nat n \<noteq> []"
  by (subst digits_of_nat.simps) simp

lemma digits_of_nat_isDigit: "c \<in> set (digits_of_nat n) \<Longrightarrow> isDigit c"
proof (induction n arbitrary: c rule: digits_of_nat.induct)
  case (1 n)
  show ?case
  proof (cases "n < 10")
    case True
    with "1.prems" show ?thesis
      by (subst (asm) digits_of_nat.simps) (simp add: isDigit_digit_char)
  next
    case False
    with "1.prems" have "c \<in> set (digits_of_nat (n div 10)) \<or> c = digit_char (n mod 10)"
      by (subst (asm) digits_of_nat.simps) auto
    with False "1.IH" show ?thesis
      by (auto simp: isDigit_digit_char)
  qed
qed

lemma digits_val_snoc: "digits_val (ds @ [d]) = 10 * digits_val ds + (unat d - 48)"
  by (simp add: digits_val_def)

lemma digits_val_digits_of_nat: "digits_val (digits_of_nat n) = n"
proof (induction n rule: digits_of_nat.induct)
  case (1 n)
  show ?case
  proof (cases "n < 10")
    case True
    then show ?thesis
      by (subst digits_of_nat.simps) (simp add: digits_val_def unat_digit_char)
  next
    case False
    with "1.IH" show ?thesis
      by (subst digits_of_nat.simps) (simp add: digits_val_snoc unat_digit_char)
  qed
qed

lemma hd_digits_of_nat: "hd (digits_of_nat n) = 0x30 \<Longrightarrow> n = 0"
proof (induction n rule: digits_of_nat.induct)
  case (1 n)
  show ?case
  proof (cases "n < 10")
    case True
    with "1.prems" show ?thesis
      by (subst (asm) digits_of_nat.simps) (simp add: digit_char_zero_iff)
  next
    case False
    with "1.prems" have "hd (digits_of_nat (n div 10)) = 0x30"
      by (subst (asm) digits_of_nat.simps) (simp add: digits_of_nat_nonempty)
    with False "1.IH" have "n div 10 = 0" by simp
    with False show ?thesis by simp
  qed
qed


lemma takeWhile_digits:
  "\<not> isDigit x \<Longrightarrow>
   takeWhile isDigit (digits_of_nat n @ x # rest) = digits_of_nat n \<and>
   dropWhile isDigit (digits_of_nat n @ x # rest) = x # rest"
  by (simp add: takeWhile_append2 dropWhile_append2 digits_of_nat_isDigit)

lemma parse_int_digits:
  assumes "\<not> isDigit x"
  shows "parse_int (digits_of_nat n @ x # rest) = Some (digits_of_nat n, x # rest)"
proof (cases "digits_of_nat n")
  case Nil
  then show ?thesis by (simp add: digits_of_nat_nonempty)
next
  case (Cons c ds)
  then have c: "isDigit c"
    using digits_of_nat_isDigit [of c n] by simp
  show ?thesis
  proof (cases "c = 0x30")
    case True
    with Cons have "n = 0"
      using hd_digits_of_nat [of n] by simp
    then have "digits_of_nat n = [0x30]"
      by (subst digits_of_nat.simps) (simp add: digit_char_def)
    then show ?thesis
      by (simp add: parse_int_def)
  next
    case False
    have "parse_int (c # ds @ x # rest) =
            Some (takeWhile isDigit (c # ds @ x # rest), dropWhile isDigit (c # ds @ x # rest))"
      using False c by (simp add: parse_int_def)
    then show ?thesis
      using takeWhile_digits [OF assms, of n rest] Cons by simp
  qed
qed

lemma parse_frac_none: "x \<noteq> 0x2E \<Longrightarrow> parse_frac (x # rest) = Some ([], x # rest)"
  by (simp add: parse_frac_def)

lemma parse_exp_none:
  "x \<noteq> 0x65 \<Longrightarrow> x \<noteq> 0x45 \<Longrightarrow> parse_exp (x # rest) = Some (0, x # rest)"
  by (simp add: parse_exp_def)

lemma number_value_int:
  "number_value neg ip [] 0 =
     (if neg then - of_nat (digits_val ip) else of_nat (digits_val ip))"
  by (simp add: number_value_def)

lemma parse_number_nat:
  assumes "\<not> isDigit x" "x \<noteq> 0x2E" "x \<noteq> 0x65" "x \<noteq> 0x45"
  shows "parse_number (digits_of_nat n @ x # rest) = Some (of_nat n, x # rest)"
proof -
  obtain c ds where cd: "digits_of_nat n = c # ds"
    using digits_of_nat_nonempty [of n] by (cases "digits_of_nat n") auto
  then have "isDigit c"
    using digits_of_nat_isDigit [of c n] by simp
  then have "c \<noteq> 0x2D"
    by (auto simp: isDigit_def)
  then have "parse_number (c # ds @ x # rest) =
     (case parse_int (c # ds @ x # rest) of
             None \<Rightarrow> None
           | Some (ip, cs2) \<Rightarrow>
               (case parse_frac cs2 of
                  None \<Rightarrow> None
                | Some (fp, cs3) \<Rightarrow>
                    (case parse_exp cs3 of
                       None \<Rightarrow> None
                     | Some (e, cs4) \<Rightarrow> Some (number_value False ip fp e, cs4))))"
    by (simp add: parse_number_def)
  then show ?thesis
    using parse_int_digits [OF assms(1), of n rest] cd assms digits_val_digits_of_nat [of n]
    by (simp add: parse_frac_none parse_exp_none number_value_int)
qed

lemma parse_number_neg:
  assumes "\<not> isDigit x" "x \<noteq> 0x2E" "x \<noteq> 0x65" "x \<noteq> 0x45"
  shows "parse_number (0x2D # digits_of_nat n @ x # rest) = Some (- of_nat n, x # rest)"
  using parse_int_digits [OF assms(1), of n rest] assms
  by (simp add: parse_number_def parse_frac_none parse_exp_none number_value_int
      digits_val_digits_of_nat)

lemma parse_number_toString:
  assumes "\<not> isDigit x" "x \<noteq> 0x2E" "x \<noteq> 0x65" "x \<noteq> 0x45"
  shows "parse_number (number_toString i @ x # rest) = Some (of_int i, x # rest)"
proof (cases "i < 0")
  case True
  then have "(- of_nat (nat (- i)) :: rat) = of_int i"
    by simp
  with True show ?thesis
    using parse_number_neg [OF assms, of "nat (- i)" rest]
    by (simp add: number_toString_def)
next
  case False
  then have "(of_nat (nat i) :: rat) = of_int i"
    by simp
  with False show ?thesis
    using parse_number_nat [OF assms, of "nat i" rest]
    by (simp add: number_toString_def)
qed

subsection \<open>Values and members\<close>

lemma skip_ws_plain: "\<not> isJSONWhiteSpace c \<Longrightarrow> skip_ws (c # r) = c # r"
  by (simp add: skip_ws_def)

lemma parse_value_number_start:
  assumes "c = 0x2D \<or> isDigit c"
  shows "parse_value (c # r) =
           (case parse_number (c # r) of None \<Rightarrow> None | Some (x, r') \<Rightarrow> Some (JNumber x, r'))"
proof -
  have "c \<noteq> 0x7B" "c \<noteq> 0x5B" "c \<noteq> 0x22" "c \<noteq> 0x74" "c \<noteq> 0x66" "c \<noteq> 0x6E"
    using assms by (auto simp: isDigit_def)
  then show ?thesis
    by (subst parse_value.simps) (simp add: js_def)
qed

lemma number_toString_start:
  "\<exists>c r. number_toString i = c # r \<and> (c = 0x2D \<or> isDigit c)"
proof (cases "i < 0")
  case True
  then show ?thesis by (simp add: number_toString_def)
next
  case False
  obtain c ds where cd: "digits_of_nat (nat i) = c # ds"
    using digits_of_nat_nonempty [of "nat i"] by (cases "digits_of_nat (nat i)") auto
  then have "isDigit c"
    using digits_of_nat_isDigit [of c "nat i"] by simp
  with False cd show ?thesis by (simp add: number_toString_def)
qed

lemma parse_value_number:
  assumes "\<not> isDigit x" "x \<noteq> 0x2E" "x \<noteq> 0x65" "x \<noteq> 0x45"
  shows "parse_value (number_toString i @ x # rest) = Some (JNumber (of_int i), x # rest)"
proof -
  obtain c r where cr: "number_toString i = c # r" "c = 0x2D \<or> isDigit c"
    using number_toString_start [of i] by blast
  have "parse_value (c # r @ x # rest) =
          (case parse_number (c # r @ x # rest) of
             None \<Rightarrow> None | Some (y, r') \<Rightarrow> Some (JNumber y, r'))"
    using cr(2) by (rule parse_value_number_start)
  then show ?thesis
    using parse_number_toString [OF assms, of i rest] cr(1) by simp
qed

lemma parse_value_bool:
  "parse_value (stringify_bool b @ rest) = Some (JBool b, rest)"
  by (cases b) (simp_all add: stringify_bool_def js_def parse_value.simps)

lemma not_ws_number_toString:
  "skip_ws (number_toString i @ rest) = number_toString i @ rest"
proof -
  obtain c r where cr: "number_toString i = c # r" "c = 0x2D \<or> isDigit c"
    using number_toString_start [of i] by blast
  then have "\<not> isJSONWhiteSpace c"
    by (auto simp: isJSONWhiteSpace_def isDigit_def)
  with cr(1) show ?thesis
    by (simp add: skip_ws_plain)
qed

lemma not_ws_quoteJSONString:
  "skip_ws (quoteJSONString s @ rest) = quoteJSONString s @ rest"
  by (simp add: quoteJSONString_def skip_ws_def isJSONWhiteSpace_def)

lemma not_ws_stringify_bool:
  "skip_ws (stringify_bool b @ rest) = stringify_bool b @ rest"
  by (simp add: stringify_bool_def skip_ws_def isJSONWhiteSpace_def js_def)

lemma parse_members_step:
  assumes "parse_value (V @ 0x2C # rest) = Some (v, 0x2C # rest)"
    and "skip_ws (V @ 0x2C # rest) = V @ 0x2C # rest"
  shows "parse_members (quoteJSONString k @ 0x3A # V @ 0x2C # rest) =
           cons_result (k, v) (parse_members rest)"
proof -
  have q: "parse_chars (quoteChars k @ 0x22 # 0x3A # V @ 0x2C # rest)
             = Some (k, 0x3A # V @ 0x2C # rest)"
    by (rule parse_chars_quoteChars)
  have w: "skip_ws (0x3A # V @ 0x2C # rest) = 0x3A # V @ 0x2C # rest"
    "skip_ws (0x2C # rest) = 0x2C # rest"
    "skip_ws (0x22 # quoteChars k @ 0x22 # 0x3A # V @ 0x2C # rest)
       = 0x22 # quoteChars k @ 0x22 # 0x3A # V @ 0x2C # rest"
    by (simp_all add: skip_ws_def isJSONWhiteSpace_def)
  show ?thesis
    by (subst parse_members.simps)
       (simp add: quoteJSONString_def q w assms del: parse_chars.simps)
qed

lemma parse_members_last:
  assumes "parse_value (V @ 0x7D # rest) = Some (v, 0x7D # rest)"
    and "skip_ws (V @ 0x7D # rest) = V @ 0x7D # rest"
  shows "parse_members (quoteJSONString k @ 0x3A # V @ 0x7D # rest) = Some ([(k, v)], rest)"
proof -
  have q: "parse_chars (quoteChars k @ 0x22 # 0x3A # V @ 0x7D # rest)
             = Some (k, 0x3A # V @ 0x7D # rest)"
    by (rule parse_chars_quoteChars)
  have w: "skip_ws (0x3A # V @ 0x7D # rest) = 0x3A # V @ 0x7D # rest"
    "skip_ws (0x7D # rest) = 0x7D # rest"
    "skip_ws (0x22 # quoteChars k @ 0x22 # 0x3A # V @ 0x7D # rest)
       = 0x22 # quoteChars k @ 0x22 # 0x3A # V @ 0x7D # rest"
    by (simp_all add: skip_ws_def isJSONWhiteSpace_def)
  show ?thesis
    by (subst parse_members.simps)
       (simp add: quoteJSONString_def q w assms del: parse_chars.simps)
qed

subsection \<open>Todo objects and arrays\<close>

lemma parse_members_todo:
  "parse_members
     (quoteJSONString (js ''id'') @ 0x3A # number_toString (id_todo t) @ 0x2C #
      quoteJSONString (js ''text'') @ 0x3A # quoteJSONString (text_todo t) @ 0x2C #
      quoteJSONString (js ''completed'') @ 0x3A # stringify_bool (completed t) @ 0x7D # rest)
   = Some ([(js ''id'', JNumber (of_int (id_todo t))),
            (js ''text'', JString (text_todo t)),
            (js ''completed'', JBool (completed t))], rest)"
proof -
  have comma: "\<not> isDigit (0x2C :: 16 word)" "(0x2C :: 16 word) \<noteq> 0x2E"
    "(0x2C :: 16 word) \<noteq> 0x65" "(0x2C :: 16 word) \<noteq> 0x45"
    by (simp_all add: isDigit_def)
  have 3: "parse_members
             (quoteJSONString (js ''completed'') @ 0x3A # stringify_bool (completed t) @ 0x7D # rest)
           = Some ([(js ''completed'', JBool (completed t))], rest)"
    by (rule parse_members_last) (simp_all only: parse_value_bool not_ws_stringify_bool)
  have 2: "parse_members
             (quoteJSONString (js ''text'') @ 0x3A # quoteJSONString (text_todo t) @ 0x2C #
              quoteJSONString (js ''completed'') @ 0x3A # stringify_bool (completed t) @ 0x7D # rest)
           = cons_result (js ''text'', JString (text_todo t))
               (parse_members (quoteJSONString (js ''completed'') @ 0x3A #
                  stringify_bool (completed t) @ 0x7D # rest))"
    by (rule parse_members_step) (simp_all only: parse_value_string not_ws_quoteJSONString)
  have 1: "parse_members
             (quoteJSONString (js ''id'') @ 0x3A # number_toString (id_todo t) @ 0x2C #
              quoteJSONString (js ''text'') @ 0x3A # quoteJSONString (text_todo t) @ 0x2C #
              quoteJSONString (js ''completed'') @ 0x3A # stringify_bool (completed t) @ 0x7D # rest)
           = cons_result (js ''id'', JNumber (of_int (id_todo t)))
               (parse_members (quoteJSONString (js ''text'') @ 0x3A #
                  quoteJSONString (text_todo t) @ 0x2C #
                  quoteJSONString (js ''completed'') @ 0x3A #
                  stringify_bool (completed t) @ 0x7D # rest))"
    by (rule parse_members_step)
       (simp_all only: parse_value_number [OF comma] not_ws_number_toString)
  show ?thesis
    by (simp only: 1 2 3 cons_result_def option.case prod.case)
qed

lemma stringify_todo_unfold:
  "stringify_todo t @ rest =
     0x7B # quoteJSONString (js ''id'') @ 0x3A # number_toString (id_todo t) @ 0x2C #
      quoteJSONString (js ''text'') @ 0x3A # quoteJSONString (text_todo t) @ 0x2C #
      quoteJSONString (js ''completed'') @ 0x3A # stringify_bool (completed t) @ 0x7D # rest"
  by (simp add: stringify_todo_def)

lemma parse_value_todo:
  "parse_value (stringify_todo t @ rest) = Some (json_of_todo t, rest)"
proof -
  have w: "skip_ws (quoteJSONString (js ''id'') @ r) = 0x22 # quoteChars (js ''id'') @ 0x22 # r" for r
    by (simp add: not_ws_quoteJSONString) (simp add: quoteJSONString_def)
  show ?thesis
    unfolding stringify_todo_unfold
    by (subst parse_value.simps) (simp add: w parse_members_todo json_of_todo_def)
qed

lemma not_ws_stringify_todo: "skip_ws (stringify_todo t @ rest) = stringify_todo t @ rest"
  unfolding stringify_todo_unfold by (simp add: skip_ws_def isJSONWhiteSpace_def)

lemma stringify_todo_nonempty: "stringify_todo t \<noteq> []"
  by (simp add: stringify_todo_def)

lemma parse_elements_todos:
  "parse_elements (join_comma (map stringify_todo (t # ts)) @ 0x5D # rest)
     = Some (map json_of_todo (t # ts), rest)"
proof (induction ts arbitrary: t)
  case Nil
  have "skip_ws (0x5D # rest) = 0x5D # rest"
    by (simp add: skip_ws_def isJSONWhiteSpace_def)
  then show ?case
    using stringify_todo_nonempty [of t]
    by (subst parse_elements.simps)
       (simp add: not_ws_stringify_todo parse_value_todo)
next
  case (Cons u us)
  have w: "skip_ws (0x2C # r) = 0x2C # r" for r
    by (simp add: skip_ws_def isJSONWhiteSpace_def)
  have j: "join_comma (map stringify_todo (t # u # us)) @ 0x5D # rest =
             stringify_todo t @ 0x2C # join_comma (map stringify_todo (u # us)) @ 0x5D # rest"
    by simp
  show ?case
    unfolding j
    using stringify_todo_nonempty [of t] Cons.IH [of u]
    by (subst parse_elements.simps)
       (simp add: not_ws_stringify_todo parse_value_todo w cons_result_def)
qed

lemma JSON_parse_stringify: "JSON_parse (JSON_stringify ts) = Some (json_of_todos ts)"
proof (cases ts)
  case Nil
  then show ?thesis
    by (simp add: JSON_parse_def JSON_stringify_def json_of_todos_def skip_ws_def
        isJSONWhiteSpace_def parse_value.simps)
next
  case (Cons t us)
  have w: "skip_ws (0x5B # r) = 0x5B # r" for r
    by (simp add: skip_ws_def isJSONWhiteSpace_def)
  obtain r where r: "join_comma (map stringify_todo (t # us)) @ [0x5D] = 0x7B # r"
    by (cases us) (simp_all add: stringify_todo_def)
  then have s: "skip_ws (join_comma (map stringify_todo (t # us)) @ [0x5D]) = 0x7B # r"
    by (simp add: skip_ws_def isJSONWhiteSpace_def)
  have p: "parse_elements (join_comma (map stringify_todo (t # us)) @ [0x5D])
             = Some (map json_of_todo (t # us), [])"
    by (rule parse_elements_todos)
  have "parse_value (0x5B # join_comma (map stringify_todo (t # us)) @ [0x5D])
          = Some (JArray (map json_of_todo (t # us)), [])"
    by (subst parse_value.simps) (simp add: s p del: list.map)
  moreover have "skip_ws [] = []"
    by (simp add: skip_ws_def)
  ultimately show ?thesis
    using Cons by (simp add: JSON_parse_def JSON_stringify_def json_of_todos_def w)
qed

lemma JSON_stringify_nonempty: "JSON_stringify ts \<noteq> []"
  by (simp add: JSON_stringify_def)

lemma todo_of_json_of_todo: "todo_of_json (json_of_todo t) = Some t"
  by (simp add: todo_of_json_def json_of_todo_def lookup_prop_def js_def)

lemma todos_of_json_of_todos: "todos_of_json (json_of_todos ts) = Some ts"
  by (induction ts) (simp_all add: todos_of_json_def json_of_todos_def todo_of_json_of_todo)

lemma load_stringify: "load (Some (JSON_stringify ts)) = Inr (Some (json_of_todos ts))"
  by (simp add: load_def JSON_stringify_nonempty JSON_parse_stringify)

subsection \<open>Every parser consumes input\<close>

lemma parse_int_length: "parse_int cs = Some (ip, r) \<Longrightarrow> length r < length cs"
  using length_dropWhile_le [of isDigit "tl cs"]
  by (auto simp: parse_int_def split: list.splits if_splits)

lemma parse_frac_length: "parse_frac cs = Some (fp, r) \<Longrightarrow> length r \<le> length cs"
  using length_dropWhile_le [of isDigit "tl cs"]
  by (auto simp: parse_frac_def split: list.splits if_splits)

lemma parse_sign_length: "parse_sign cs = (b, r) \<Longrightarrow> length r \<le> length cs"
  by (auto simp: parse_sign_def split: list.splits if_splits)

lemma parse_exp_length: "parse_exp cs = Some (e, r) \<Longrightarrow> length r \<le> length cs"
proof (cases cs)
  case Nil
  then show "parse_exp cs = Some (e, r) \<Longrightarrow> length r \<le> length cs"
    by (simp add: parse_exp_def)
next
  case (Cons c cs')
  assume a: "parse_exp cs = Some (e, r)"
  obtain b r' where s: "parse_sign cs' = (b, r')"
    by (cases "parse_sign cs'")
  then have "length r' \<le> length cs'"
    by (rule parse_sign_length)
  moreover have "length (dropWhile isDigit r') \<le> length r'"
    by (rule length_dropWhile_le)
  ultimately show "length r \<le> length cs"
    using a Cons s by (auto simp: parse_exp_def split: if_splits)
qed

lemma parse_number_length:
  assumes "parse_number cs = Some (x, r)"
  shows "length r < length cs"
proof -
  obtain neg cs1 where n: "(case cs of [] \<Rightarrow> (False, cs)
                             | c # r \<Rightarrow> if c = 0x2D then (True, r) else (False, cs)) = (neg, cs1)"
    by (cases "case cs of [] \<Rightarrow> (False, cs) | c # r \<Rightarrow> if c = 0x2D then (True, r) else (False, cs)")
  then have l1: "length cs1 \<le> length cs"
    by (auto split: list.splits if_splits)
  from assms n obtain ip cs2 fp cs3 e
    where "parse_int cs1 = Some (ip, cs2)" "parse_frac cs2 = Some (fp, cs3)"
      "parse_exp cs3 = Some (e, r)"
    by (auto simp: parse_number_def split: option.splits)
  then have "length cs2 < length cs1" "length cs3 \<le> length cs2" "length r \<le> length cs3"
    by (auto dest: parse_int_length parse_frac_length parse_exp_length)
  with l1 show ?thesis by simp
qed

lemma parse_length:
  "parse_value cs = Some (v, r) \<Longrightarrow> length r < length cs"
  "parse_elements cs' = Some (vs, r') \<Longrightarrow> length r' < length cs'"
  "parse_members cs'' = Some (ms, r'') \<Longrightarrow> length r'' < length cs''"
proof (induction cs and cs' and cs'' arbitrary: v r and vs r' and ms r''
    rule: parse_value_parse_elements_parse_members.induct)
  case (1 cs)
  from "1.prems" show ?case
    by (subst (asm) parse_value.simps)
       (auto split: list.splits if_splits option.splits
          dest: "1.IH" skip_ws_Cons_length parse_chars_length parse_number_length)
next
  case (2 cs)
  from "2.prems" obtain v r where pv: "parse_value (skip_ws cs) = Some (v, r)"
    and g: "length r < length cs"
    and k: "(case skip_ws r of
               [] \<Rightarrow> None
             | d # r1 \<Rightarrow>
                 if d = 0x2C then cons_result v (parse_elements r1)
                 else if d = 0x5D then Some ([v], r1)
                 else None) = Some (vs, r')"
    by (subst (asm) parse_elements.simps) (auto split: option.splits if_splits)
  from k obtain d r1 where sk: "skip_ws r = d # r1"
    by (cases "skip_ws r") auto
  then have l: "length r1 < length r"
    by (rule skip_ws_Cons_length)
  show ?case
  proof (cases "d = 0x2C")
    case True
    with k sk obtain vs' where "parse_elements r1 = Some (vs', r')"
      by (auto simp: cons_result_Some)
    with pv g sk True have "length r' < length r1"
      by (intro "2.IH"(2) [of "(v, r)" v r d r1 vs' r']) auto
    with l g show ?thesis by simp
  next
    case False
    with k sk have "r' = r1"
      by (auto split: if_splits)
    with l g show ?thesis by simp
  qed
next
  case (3 cs)
  from "3.prems" obtain q r where s0: "skip_ws cs = q # r" and q: "q = 0x22"
    by (subst (asm) parse_members.simps) (auto split: list.splits if_splits)
  from "3.prems" s0 q obtain k r1 where pc: "parse_chars r = Some (k, r1)"
    by (subst (asm) parse_members.simps) (auto split: option.splits)
  from "3.prems" s0 q pc obtain col r2 where s1: "skip_ws r1 = col # r2" and col: "col = 0x3A"
    by (subst (asm) parse_members.simps) (auto split: list.splits if_splits)
  from "3.prems" s0 q pc s1 col obtain v r3 where pv: "parse_value (skip_ws r2) = Some (v, r3)"
    and g: "length r3 < length cs"
    and kk: "(case skip_ws r3 of
               [] \<Rightarrow> None
             | d # r4 \<Rightarrow>
                 if d = 0x2C then cons_result (k, v) (parse_members r4)
                 else if d = 0x7D then Some ([(k, v)], r4)
                 else None) = Some (ms, r'')"
    by (subst (asm) parse_members.simps) (auto split: option.splits if_splits)
  from kk obtain d r4 where sk: "skip_ws r3 = d # r4"
    by (cases "skip_ws r3") auto
  then have l: "length r4 < length r3"
    by (rule skip_ws_Cons_length)
  show ?case
  proof (cases "d = 0x2C")
    case True
    with kk sk obtain ms' where "parse_members r4 = Some (ms', r'')"
      by (auto simp: cons_result_Some)
    with s0 q pc s1 col pv g sk True have "length r'' < length r4"
      by (intro "3.IH"(2) [of q r "(k, r1)" k r1 col r2 "(v, r3)" v r3 d r4 ms' r'']) auto
    with l g show ?thesis by simp
  next
    case False
    with kk sk have "r'' = r4"
      by (auto split: if_splits)
    with l g show ?thesis by simp
  qed
qed

text \<open>
  The two length tests in \<open>parse_elements\<close> and \<open>parse_members\<close> only serve the
  termination proof: a value that was read has consumed at least one code unit, so the
  tests never fail and the functions satisfy the equations without them.
\<close>

lemma parse_elements_unguarded:
  "parse_elements cs =
     (case parse_value (skip_ws cs) of
        None \<Rightarrow> None
      | Some (v, r) \<Rightarrow>
          (case skip_ws r of
             [] \<Rightarrow> None
           | d # r' \<Rightarrow>
               if d = 0x2C then cons_result v (parse_elements r')
               else if d = 0x5D then Some ([v], r')
               else None))"
proof (cases "parse_value (skip_ws cs)")
  case None
  then show ?thesis
    by (subst parse_elements.simps) simp
next
  case (Some p)
  obtain v r where p: "p = (v, r)"
    by (cases p)
  with Some have "length r < length (skip_ws cs)"
    by (auto dest: parse_length(1))
  then have "length r < length cs"
    using skip_ws_length [of cs] by simp
  with Some p show ?thesis
    by (subst parse_elements.simps) simp
qed

lemma parse_members_unguarded:
  "parse_members cs =
     (case skip_ws cs of
        [] \<Rightarrow> None
      | q # r \<Rightarrow>
          if q = 0x22 then
            (case parse_chars r of
               None \<Rightarrow> None
             | Some (k, r1) \<Rightarrow>
                 (case skip_ws r1 of
                    [] \<Rightarrow> None
                  | col # r2 \<Rightarrow>
                      if col = 0x3A then
                        (case parse_value (skip_ws r2) of
                           None \<Rightarrow> None
                         | Some (v, r3) \<Rightarrow>
                             (case skip_ws r3 of
                                [] \<Rightarrow> None
                              | d # r4 \<Rightarrow>
                                  if d = 0x2C then cons_result (k, v) (parse_members r4)
                                  else if d = 0x7D then Some ([(k, v)], r4)
                                  else None))
                      else None))
          else None)"
proof -
  have g: "length r3 < length cs"
    if "skip_ws cs = q # r" "parse_chars r = Some (k, r1)" "skip_ws r1 = col # r2"
      "parse_value (skip_ws r2) = Some (v, r3)" for q r k r1 col r2 v r3
    using that skip_ws_Cons_length [of cs q r] parse_chars_length [of r k r1]
      skip_ws_Cons_length [of r1 col r2] skip_ws_length [of r2]
      parse_length(1) [of "skip_ws r2" v r3]
    by simp
  show ?thesis
    by (subst parse_members.simps)
       (auto split: list.splits option.splits simp: g simp del: parse_chars.simps)
qed

section \<open>The claims\<close>

text \<open>
  Claim C1, as the component has it. The load effect does nothing when the key is absent
  or holds the empty string, so the list stays empty. A non-empty stored string that is
  not JSON text makes \<^verbatim>\<open>JSON.parse\<close> throw a \<^verbatim>\<open>SyntaxError\<close>, which the
  effect does not catch: \<^verbatim>\<open>setTodos\<close> is never reached. A stored string that is
  JSON text is handed to \<^verbatim>\<open>setTodos\<close> as parsed, whatever its shape.
\<close>

theorem load_spec:
  "load None = Inr None \<and> load (Some []) = Inr None \<and>
   (s \<noteq> [] \<and> JSON_parse s = None \<longrightarrow> load (Some s) = Inl SyntaxError) \<and>
   (s \<noteq> [] \<and> JSON_parse s = Some v \<longrightarrow> load (Some s) = Inr (Some v))"
  by (simp add: load_def)

theorem load_spec_witness:
  "js ''not valid json'' \<noteq> [] \<and> JSON_parse (js ''not valid json'') = None \<and>
   load (Some (js ''not valid json'')) = Inl SyntaxError \<and>
   js ''[]'' \<noteq> [] \<and> JSON_parse (js ''[]'') = Some (JArray []) \<and>
   load (Some (js ''[]'')) = Inr (Some (JArray []))"
proof -
  have a: "js ''not valid json'' \<noteq> []" and b: "js ''[]'' \<noteq> []"
    by (simp_all add: js_def)
  show ?thesis
    using a b parse_not_valid parse_empty_array
      load_spec [of "js ''not valid json''" "JArray []"] load_spec [of "js ''[]''" "JArray []"]
    by simp
qed


text \<open>
  Claim C1 as the specification words it (a stored \<^verbatim>\<open>"not valid json"\<close> gives an
  empty list and no crash) fails: the effect ends with the exception.
\<close>

theorem load_malformed_counterexample:
  "JSON_parse (js ''not valid json'') = None \<and>
   load (Some (js ''not valid json'')) = Inl SyntaxError \<and>
   load (Some (js ''not valid json'')) \<noteq> Inr None \<and>
   load (Some (js ''not valid json'')) \<noteq> Inr (Some (JArray []))"
  using parse_not_valid by (simp add: load_def js_def)

text \<open>
  Claim C2, as the component has it. From a list with pairwise distinct ids,
  \<^verbatim>\<open>toggleComplete\<close>, \<^verbatim>\<open>deleteTodo\<close>, \<^verbatim>\<open>clearCompleted\<close> and
  \<^verbatim>\<open>clearAll\<close> give a list with pairwise distinct ids, and \<^verbatim>\<open>addTodo\<close> does
  exactly when the input is blank or the reading of \<^verbatim>\<open>Date.now()\<close> is not the id
  of a task already in the list. The load effect hands on the stored list \<open>ts\<close> as it
  is, whether its ids are distinct or not.
\<close>

theorem ids_unique_preserved:
  assumes "distinct (map id_todo (todos st))"
  shows "distinct (map id_todo (todos (toggleComplete i st))) \<and>
         distinct (map id_todo (todos (deleteTodo i st))) \<and>
         distinct (map id_todo (todos (clearCompleted st))) \<and>
         distinct (map id_todo (todos (clearAll st))) \<and>
         (distinct (map id_todo (todos (addTodo now st))) \<longleftrightarrow>
            trim (input st) = [] \<or> now \<notin> id_todo ` set (todos st)) \<and>
         load (Some (JSON_stringify ts)) = Inr (Some (json_of_todos ts)) \<and>
         todos_of_json (json_of_todos ts) = Some ts"
proof (intro conjI)
  have "map id_todo (todos (toggleComplete i st)) = map id_todo (todos st)"
    by (simp add: toggleComplete_def)
  with assms show "distinct (map id_todo (todos (toggleComplete i st)))"
    by simp
  show "distinct (map id_todo (todos (deleteTodo i st)))"
    using assms by (simp add: deleteTodo_def distinct_map_filter)
  show "distinct (map id_todo (todos (clearCompleted st)))"
    using assms by (simp add: clearCompleted_def distinct_map_filter)
  show "distinct (map id_todo (todos (clearAll st)))"
    by (simp add: clearAll_def)
  show "distinct (map id_todo (todos (addTodo now st))) \<longleftrightarrow>
          trim (input st) = [] \<or> now \<notin> id_todo ` set (todos st)"
    using assms by (auto simp: addTodo_def setInput_def setTodos_def Let_def)
  show "load (Some (JSON_stringify ts)) = Inr (Some (json_of_todos ts))"
    by (rule load_stringify)
  show "todos_of_json (json_of_todos ts) = Some ts"
    by (rule todos_of_json_of_todos)
qed

theorem ids_unique_preserved_witness:
  "distinct (map id_todo (todos ex_state)) \<and>
   distinct (map id_todo (todos (toggleComplete 1 ex_state))) \<and>
   distinct (map id_todo (todos (deleteTodo 1 ex_state))) \<and>
   distinct (map id_todo (todos (clearCompleted ex_state))) \<and>
   distinct (map id_todo (todos (clearAll ex_state))) \<and>
   distinct (map id_todo (todos (addTodo 3 (setInput (js ''feed cat'') ex_state)))) \<and>
   \<not> distinct (map id_todo (todos (addTodo 2 (setInput (js ''feed cat'') ex_state))))"
proof -
  have d: "distinct (map id_todo (todos ex_state))"
    by (simp add: ex_state_def)
  have d': "distinct (map id_todo (todos (setInput (js ''feed cat'') ex_state)))"
    by (simp add: ex_state_def setInput_def)
  have t: "trim (input (setInput (js ''feed cat'') ex_state)) \<noteq> []"
    by (simp add: setInput_def trim_def js_def isWhiteSpace_def)
  have i3: "3 \<notin> id_todo ` set (todos (setInput (js ''feed cat'') ex_state))"
    and i2: "2 \<in> id_todo ` set (todos (setInput (js ''feed cat'') ex_state))"
    by (simp_all add: setInput_def ex_state_def)
  show ?thesis
    using d t i3 i2 ids_unique_preserved [OF d, of 1 3]
      ids_unique_preserved [OF d', of 1 3] ids_unique_preserved [OF d', of 1 2]
    by simp
qed


text \<open>
  Claim C2 as the specification words it (ids pairwise distinct after every operation on
  every reachable state) fails: two tasks added at one clock reading share their id.
\<close>

theorem ids_unique_counterexample:
  "distinct (map id_todo (todos (initial None))) \<and>
   \<not> distinct (map id_todo (todos
       (addTodo 5 (setInput (js ''b'') (addTodo 5 (setInput (js ''a'') (initial None)))))))"
  by (simp add: initial_def addTodo_def setInput_def setTodos_def trim_def js_def isWhiteSpace_def Let_def)


text \<open>
  Claim C3. The string the save effect stores for a list is read back by the load effect
  of a fresh component as the value of that same list: the same tasks, with the same ids,
  texts and \<open>completed\<close> flags, in the same order.
\<close>

theorem save_load_roundtrip:
  "storage (setTodos ts st) = Some (JSON_stringify ts) \<and>
   load (storage (setTodos ts st)) = Inr (Some (json_of_todos ts)) \<and>
   todos_of_json (json_of_todos ts) = Some ts"
  by (simp add: setTodos_def load_stringify todos_of_json_of_todos)

text \<open>
  Claim C4. \<^verbatim>\<open>addTodo\<close> on an input that trims to the empty string returns the
  state as it was: the list, the storage and the count of storage writes are unchanged.
  On any other input it appends one task whose id is the reading of \<^verbatim>\<open>Date.now()\<close>,
  whose text is the input and whose \<open>completed\<close> is false; the tasks already there
  keep their places and values, and the new list is written to the storage once.
\<close>

theorem addTodo_spec:
  "(trim (input st) = [] \<longrightarrow> addTodo now st = st) \<and>
   (trim (input st) \<noteq> [] \<longrightarrow>
      todos (addTodo now st) =
        todos st @ [\<lparr>id_todo = now, text_todo = input st, completed = False\<rparr>] \<and>
      length (todos (addTodo now st)) = Suc (length (todos st)) \<and>
      take (length (todos st)) (todos (addTodo now st)) = todos st \<and>
      storage (addTodo now st) = Some (JSON_stringify (todos (addTodo now st))) \<and>
      writes (addTodo now st) = Suc (writes st))"
  by (simp add: addTodo_def setTodos_def setInput_def Let_def)

theorem addTodo_spec_witness:
  "trim (input ex_state) = [] \<and> addTodo 7 ex_state = ex_state \<and>
   trim (input (setInput (js '' feed cat'') ex_state)) \<noteq> [] \<and>
   todos (addTodo 7 (setInput (js '' feed cat'') ex_state)) =
     todos ex_state @ [\<lparr>id_todo = 7, text_todo = js '' feed cat'', completed = False\<rparr>] \<and>
   writes (addTodo 7 (setInput (js '' feed cat'') ex_state)) = 1"
proof -
  have a: "trim (input ex_state) = []"
    by (simp add: ex_state_def trim_def js_def isWhiteSpace_def)
  have b: "trim (input (setInput (js '' feed cat'') ex_state)) \<noteq> []"
    by (simp add: setInput_def trim_def js_def isWhiteSpace_def)
  show ?thesis
    using a b addTodo_spec [of ex_state 7] addTodo_spec [of "setInput (js '' feed cat'') ex_state" 7]
    by (simp add: setInput_def ex_state_def)
qed


text \<open>
  Claim C5. On a list with pairwise distinct ids, \<^verbatim>\<open>toggleComplete(id)\<close> keeps
  the length, the ids and the texts in their order; at every position it negates
  \<open>completed\<close> when the id matches and leaves the task as it was otherwise; at most
  one task matches; and with no match the list is unchanged.
\<close>

theorem toggleComplete_frame:
  assumes "distinct (map id_todo (todos st))"
  shows "length (todos (toggleComplete i st)) = length (todos st) \<and>
         map id_todo (todos (toggleComplete i st)) = map id_todo (todos st) \<and>
         map text_todo (todos (toggleComplete i st)) = map text_todo (todos st) \<and>
         (\<forall>k<length (todos st).
            (id_todo (todos st ! k) = i \<longrightarrow>
               todos (toggleComplete i st) ! k =
                 (todos st ! k)\<lparr>completed := \<not> completed (todos st ! k)\<rparr>) \<and>
            (id_todo (todos st ! k) \<noteq> i \<longrightarrow>
               todos (toggleComplete i st) ! k = todos st ! k)) \<and>
         length (filter (\<lambda>t. id_todo t = i) (todos st)) \<le> 1 \<and>
         (i \<notin> id_todo ` set (todos st) \<longrightarrow> todos (toggleComplete i st) = todos st)"
proof (intro conjI)
  show "length (todos (toggleComplete i st)) = length (todos st)"
    by (simp add: toggleComplete_def)
  show "map id_todo (todos (toggleComplete i st)) = map id_todo (todos st)"
    by (simp add: toggleComplete_def)
  show "map text_todo (todos (toggleComplete i st)) = map text_todo (todos st)"
    by (simp add: toggleComplete_def)
  show "\<forall>k<length (todos st).
          (id_todo (todos st ! k) = i \<longrightarrow>
             todos (toggleComplete i st) ! k =
               (todos st ! k)\<lparr>completed := \<not> completed (todos st ! k)\<rparr>) \<and>
          (id_todo (todos st ! k) \<noteq> i \<longrightarrow>
             todos (toggleComplete i st) ! k = todos st ! k)"
    by (simp add: toggleComplete_def)
  show "length (filter (\<lambda>t. id_todo t = i) (todos st)) \<le> 1"
    using assms by (rule distinct_ids_single)
  show "i \<notin> id_todo ` set (todos st) \<longrightarrow> todos (toggleComplete i st) = todos st"
    by (auto simp: toggleComplete_def intro!: map_idI)
qed

theorem toggleComplete_frame_witness:
  "distinct (map id_todo (todos ex_state)) \<and>
   length (todos (toggleComplete 1 ex_state)) = 2 \<and>
   todos (toggleComplete 1 ex_state) ! 0 =
     \<lparr>id_todo = 1, text_todo = js ''buy milk'', completed = True\<rparr> \<and>
   todos (toggleComplete 1 ex_state) ! 1 =
     \<lparr>id_todo = 2, text_todo = js ''walk dog'', completed = True\<rparr> \<and>
   3 \<notin> id_todo ` set (todos ex_state) \<and>
   todos (toggleComplete 3 ex_state) = todos ex_state"
proof -
  have d: "distinct (map id_todo (todos ex_state))"
    by (simp add: ex_state_def)
  have n: "3 \<notin> id_todo ` set (todos ex_state)"
    by (simp add: ex_state_def)
  have t: "todos ex_state =
             [\<lparr>id_todo = 1, text_todo = js ''buy milk'', completed = False\<rparr>,
              \<lparr>id_todo = 2, text_todo = js ''walk dog'', completed = True\<rparr>]"
    by (simp add: ex_state_def)
  note f = toggleComplete_frame [OF d, of 1]
  from f have len: "length (todos (toggleComplete 1 ex_state)) = 2"
    by (simp add: t)
  from f have k: "\<forall>k<length (todos ex_state).
            (id_todo (todos ex_state ! k) = 1 \<longrightarrow>
               todos (toggleComplete 1 ex_state) ! k =
                 (todos ex_state ! k)\<lparr>completed := \<not> completed (todos ex_state ! k)\<rparr>) \<and>
            (id_todo (todos ex_state ! k) \<noteq> 1 \<longrightarrow>
               todos (toggleComplete 1 ex_state) ! k = todos ex_state ! k)"
    by blast
  from k [rule_format, of 0] have k0: "todos (toggleComplete 1 ex_state) ! 0 =
     \<lparr>id_todo = 1, text_todo = js ''buy milk'', completed = True\<rparr>"
    by (simp add: t)
  from k [rule_format, of 1] have k1: "todos (toggleComplete 1 ex_state) ! 1 =
     \<lparr>id_todo = 2, text_todo = js ''walk dog'', completed = True\<rparr>"
    by (simp add: t)
  have "todos (toggleComplete 3 ex_state) = todos ex_state"
    using toggleComplete_frame [OF d, of 3] n by simp
  with d n len k0 k1 show ?thesis
    by simp
qed

text \<open>
  Claim C6. \<^verbatim>\<open>toggleComplete(id)\<close> twice in succession gives the list back as it
  was, for an id that is in the list (and for one that is not).
\<close>

theorem toggleComplete_twice:
  "todos (toggleComplete i (toggleComplete i st)) = todos st"
  by (simp add: toggleComplete_def map_idI o_def)

text \<open>
  Claim C7. On a list with pairwise distinct ids, \<^verbatim>\<open>deleteTodo(id)\<close> leaves no
  task with that id; where the list is \<open>xs @ t # ys\<close> with \<open>t\<close> the task of that
  id the result is \<open>xs @ ys\<close>; and with no match the list is unchanged.
\<close>

theorem deleteTodo_spec:
  assumes "distinct (map id_todo (todos st))"
  shows "i \<notin> id_todo ` set (todos (deleteTodo i st)) \<and>
         subseq (todos (deleteTodo i st)) (todos st) \<and>
         (\<forall>xs t ys. todos st = xs @ t # ys \<and> id_todo t = i \<longrightarrow>
            todos (deleteTodo i st) = xs @ ys) \<and>
         (i \<notin> id_todo ` set (todos st) \<longrightarrow> todos (deleteTodo i st) = todos st)"
proof (intro conjI)
  show "i \<notin> id_todo ` set (todos (deleteTodo i st))"
    by (auto simp: deleteTodo_def)
  show "subseq (todos (deleteTodo i st)) (todos st)"
    by (simp add: deleteTodo_def)
  show "\<forall>xs t ys. todos st = xs @ t # ys \<and> id_todo t = i \<longrightarrow>
          todos (deleteTodo i st) = xs @ ys"
  proof (intro allI impI)
    fix xs t ys
    assume h: "todos st = xs @ t # ys \<and> id_todo t = i"
    with assms have "i \<notin> id_todo ` set xs" "i \<notin> id_todo ` set ys"
      by auto
    then have "filter (\<lambda>todo. id_todo todo \<noteq> i) xs = xs"
      "filter (\<lambda>todo. id_todo todo \<noteq> i) ys = ys"
      by (auto simp: filter_id_conv)
    with h show "todos (deleteTodo i st) = xs @ ys"
      by (simp add: deleteTodo_def)
  qed
  show "i \<notin> id_todo ` set (todos st) \<longrightarrow> todos (deleteTodo i st) = todos st"
    by (auto simp: deleteTodo_def filter_id_conv)
qed

theorem deleteTodo_spec_witness:
  "distinct (map id_todo (todos ex_state)) \<and>
   todos ex_state = [] @ \<lparr>id_todo = 1, text_todo = js ''buy milk'', completed = False\<rparr>
                      # [\<lparr>id_todo = 2, text_todo = js ''walk dog'', completed = True\<rparr>] \<and>
   todos (deleteTodo 1 ex_state) =
     [\<lparr>id_todo = 2, text_todo = js ''walk dog'', completed = True\<rparr>] \<and>
   5 \<notin> id_todo ` set (todos ex_state) \<and>
   todos (deleteTodo 5 ex_state) = todos ex_state"
proof -
  have d: "distinct (map id_todo (todos ex_state))"
    by (simp add: ex_state_def)
  have n: "5 \<notin> id_todo ` set (todos ex_state)"
    by (simp add: ex_state_def)
  have s: "todos ex_state = [] @ \<lparr>id_todo = 1, text_todo = js ''buy milk'', completed = False\<rparr>
                      # [\<lparr>id_todo = 2, text_todo = js ''walk dog'', completed = True\<rparr>]"
    by (simp add: ex_state_def)
  note f = deleteTodo_spec [OF d]
  have "\<forall>xs t ys. todos ex_state = xs @ t # ys \<and> id_todo t = 1 \<longrightarrow>
          todos (deleteTodo 1 ex_state) = xs @ ys"
    using f [of 1] by blast
  then have "todos ex_state = [] @ \<lparr>id_todo = 1, text_todo = js ''buy milk'', completed = False\<rparr>
                      # [\<lparr>id_todo = 2, text_todo = js ''walk dog'', completed = True\<rparr>] \<and>
             id_todo \<lparr>id_todo = 1, text_todo = js ''buy milk'', completed = False\<rparr> = 1 \<longrightarrow>
          todos (deleteTodo 1 ex_state) =
            [] @ [\<lparr>id_todo = 2, text_todo = js ''walk dog'', completed = True\<rparr>]"
    by blast
  with s have "todos (deleteTodo 1 ex_state) =
          [] @ [\<lparr>id_todo = 2, text_todo = js ''walk dog'', completed = True\<rparr>]"
    by simp
  moreover have "todos (deleteTodo 5 ex_state) = todos ex_state"
    using f [of 5] n by blast
  ultimately show ?thesis using d n s by simp
qed

text \<open>
  Claim C8. \<^verbatim>\<open>clearCompleted\<close> gives exactly the tasks whose \<open>completed\<close> was
  false, each as often as before and in their original order.
\<close>

theorem clearCompleted_spec:
  "todos (clearCompleted st) = filter (\<lambda>t. \<not> completed t) (todos st) \<and>
   subseq (todos (clearCompleted st)) (todos st) \<and>
   set (todos (clearCompleted st)) = {t \<in> set (todos st). \<not> completed t} \<and>
   count_list (todos (clearCompleted st)) t = (if completed t then 0 else count_list (todos st) t)"
  by (auto simp: clearCompleted_def count_list_filter)

text \<open>
  Claim C9. For a task of the list: the view under the filter \<^verbatim>\<open>'all'\<close> contains
  it, the view under \<^verbatim>\<open>'pending'\<close> contains it exactly when \<open>completed\<close> is
  false, the view under \<^verbatim>\<open>'completed'\<close> exactly when it is true. Every view is
  the list filtered in its original order, and choosing a filter changes neither the
  list nor the storage.
\<close>

theorem filteredTodos_spec:
  assumes "t \<in> set (todos st)"
  shows "t \<in> set (filteredTodos (setFilter (js ''all'') st)) \<and>
         (t \<in> set (filteredTodos (setFilter (js ''pending'') st)) \<longleftrightarrow> \<not> completed t) \<and>
         (t \<in> set (filteredTodos (setFilter (js ''completed'') st)) \<longleftrightarrow> completed t) \<and>
         filteredTodos (setFilter (js ''all'') st) = todos st \<and>
         filteredTodos (setFilter (js ''pending'') st) = filter (\<lambda>t. \<not> completed t) (todos st) \<and>
         filteredTodos (setFilter (js ''completed'') st) = filter completed (todos st) \<and>
         subseq (filteredTodos (setFilter f st)) (todos st) \<and>
         todos (setFilter f st) = todos st \<and>
         storage (setFilter f st) = storage st \<and>
         writes (setFilter f st) = writes st"
  using assms js_literals_distinct
  by (simp add: filteredTodos_def setFilter_def)

theorem filteredTodos_spec_witness:
  "\<lparr>id_todo = 1, text_todo = js ''buy milk'', completed = False\<rparr> \<in> set (todos ex_state) \<and>
   filteredTodos (setFilter (js ''pending'') ex_state) =
     [\<lparr>id_todo = 1, text_todo = js ''buy milk'', completed = False\<rparr>] \<and>
   filteredTodos (setFilter (js ''completed'') ex_state) =
     [\<lparr>id_todo = 2, text_todo = js ''walk dog'', completed = True\<rparr>] \<and>
   filteredTodos (setFilter (js ''all'') ex_state) = todos ex_state"
proof -
  have m: "\<lparr>id_todo = 1, text_todo = js ''buy milk'', completed = False\<rparr> \<in> set (todos ex_state)"
    by (simp add: ex_state_def)
  show ?thesis
    using m filteredTodos_spec [OF m, of "js ''all''"]
    by (simp add: ex_state_def)
qed

text \<open>
  Claim C10. Under a filter string that is neither \<^verbatim>\<open>'pending'\<close> nor
  \<^verbatim>\<open>'completed'\<close> the view is the whole list.
\<close>

theorem filteredTodos_other:
  assumes "filter_st st \<noteq> js ''pending''" and "filter_st st \<noteq> js ''completed''"
  shows "filteredTodos st = todos st"
  using assms by (simp add: filteredTodos_def)

theorem filteredTodos_other_witness:
  "filter_st (setFilter (js ''done'') ex_state) \<noteq> js ''pending'' \<and>
   filter_st (setFilter (js ''done'') ex_state) \<noteq> js ''completed'' \<and>
   filteredTodos (setFilter (js ''done'') ex_state) = todos ex_state"
proof -
  have a: "filter_st (setFilter (js ''done'') ex_state) \<noteq> js ''pending''"
    by (simp add: setFilter_def js_def)
  have b: "filter_st (setFilter (js ''done'') ex_state) \<noteq> js ''completed''"
    by (simp add: setFilter_def js_def)
  show ?thesis
    using a b filteredTodos_other [OF a b] by (simp add: setFilter_def)
qed


end
